theory Spec2Isabelle
  imports Complex_Main "HOL-Library.Log_Nat"
begin

section \<open>Python values and exceptions\<close>

text \<open>
  The timing model and the optimizer are Python functions over numbers. Numbers are
  modelled in exact arithmetic (\<open>real\<close> for Python's float, \<open>int\<close> for Python's
  unbounded int); rounding and overflow of IEEE doubles are outside the model.
  An exception is a value of type \<open>error\<close>, and a function that may raise returns
  \<open>error + 'a\<close> with \<open>Inl\<close> for the exception. \<open>ValueError\<close> carries its message.
\<close>

datatype error = ValueError string | ZeroDivisionError | OverflowError

text \<open>
  \<open>n_cavers\<close> is the one argument whose run-time type the code inspects, so it is a
  dynamically typed value. \<open>bool\<close> is a subclass of \<open>int\<close> in Python:
  \<open>isinstance(True, int)\<close> holds and \<open>True\<close> counts as 1.
\<close>

datatype pyval = PInt int | PBool bool | PFloat real | PStr string | PNone

fun isinstance_int :: "pyval \<Rightarrow> bool" where
  "isinstance_int (PInt i) = True"
| "isinstance_int (PBool b) = True"
| "isinstance_int v = False"

fun int_value :: "pyval \<Rightarrow> int" where
  "int_value (PInt i) = i"
| "int_value (PBool b) = (if b then 1 else 0)"
| "int_value v = 0"

text \<open>True division \<open>a / b\<close>: raises \<open>ZeroDivisionError\<close> when the divisor is zero.\<close>

definition py_div :: "real \<Rightarrow> real \<Rightarrow> error + real" where
  "py_div a b = (if b = 0 then Inl ZeroDivisionError else Inr (a / b))"

section \<open>The timing model: \<open>ascent_time\<close>\<close>

text \<open>
  \<^verbatim>\<open>
  if n_rebelays > 0:
      section_length = rope_length / (n_rebelays + 1)
  else:
      section_length = rope_length
  \<close>
\<close>

definition section_length :: "real \<Rightarrow> int \<Rightarrow> error + real" where
  "section_length rope_length n_rebelays =
     (if n_rebelays > 0 then py_div rope_length (of_int (n_rebelays + 1))
      else Inr rope_length)"

text \<open>\<^verbatim>\<open>section_time = (section_length / ascent_speed) + transition_time\<close>\<close>

definition section_time :: "real \<Rightarrow> real \<Rightarrow> real \<Rightarrow> error + real" where
  "section_time sec_length ascent_speed transition_time =
     (case py_div sec_length ascent_speed of
        Inl e \<Rightarrow> Inl e
      | Inr q \<Rightarrow> Inr (q + transition_time))"

text \<open>\<^verbatim>\<open>leader_time = section_time * (n_rebelays + 1)\<close>\<close>

definition leader_time :: "real \<Rightarrow> int \<Rightarrow> real" where
  "leader_time sec_time n_rebelays = sec_time * of_int (n_rebelays + 1)"

text \<open>
  The whole function. The check of \<open>n_cavers\<close> comes first; \<open>or\<close> is short-circuit, so
  \<open>n_cavers < 1\<close> is only evaluated on an instance of \<open>int\<close>.
\<close>

definition ascent_time :: "real \<Rightarrow> pyval \<Rightarrow> int \<Rightarrow> real \<Rightarrow> real \<Rightarrow> error + real" where
  "ascent_time rope_length n_cavers n_rebelays ascent_speed transition_time =
     (if \<not> isinstance_int n_cavers \<or> int_value n_cavers < 1
      then Inl (ValueError ''n_cavers must be an integer of at least 1'')
      else
        (case section_length rope_length n_rebelays of
           Inl e \<Rightarrow> Inl e
         | Inr sec_length \<Rightarrow>
             (case section_time sec_length ascent_speed transition_time of
                Inl e \<Rightarrow> Inl e
              | Inr sec_time \<Rightarrow>
                  Inr (leader_time sec_time n_rebelays
                       + sec_time * of_int (int_value n_cavers - 1)))))"

section \<open>The optimizer: \<open>optimum_rebelay\<close> and \<open>optimum_rebelay_both_ways\<close>\<close>

subsection \<open>Library routines the optimizer calls\<close>

text \<open>\<open>range(lo, hi)\<close> over Python ints: empty when \<open>hi \<le> lo\<close>.\<close>

definition py_range :: "int \<Rightarrow> int \<Rightarrow> int list" where
  "py_range lo hi = [lo..hi - 1]"

text \<open>The builtins \<open>min\<close> and \<open>max\<close> on a list: \<open>ValueError\<close> on the empty list.\<close>

definition py_min :: "real list \<Rightarrow> error + real" where
  "py_min xs =
     (case xs of
        [] \<Rightarrow> Inl (ValueError ''min() arg is an empty sequence'')
      | x # rest \<Rightarrow> Inr (fold min rest x))"

definition py_max :: "real list \<Rightarrow> error + real" where
  "py_max xs =
     (case xs of
        [] \<Rightarrow> Inl (ValueError ''max() arg is an empty sequence'')
      | x # rest \<Rightarrow> Inr (fold max rest x))"

text \<open>
  \<open>numpy.linspace(start, stop, num, endpoint=True)\<close>: \<open>num\<close> evenly spaced points, the
  first \<open>start\<close> and the last \<open>stop\<close>.
\<close>

definition linspace :: "real \<Rightarrow> real \<Rightarrow> nat \<Rightarrow> real list" where
  "linspace start stop num =
     map (\<lambda>i. start + of_nat i * ((stop - start) / of_nat (num - 1))) [0..<num]"

text \<open>\<open>numpy.argmin\<close>: the index of the first occurrence of the least element.\<close>

fun argmin :: "real list \<Rightarrow> nat" where
  "argmin [] = 0"
| "argmin [y] = 0"
| "argmin (y # ys) = (let i = argmin ys in if y \<le> ys ! i then 0 else Suc i)"

text \<open>
  \<open>round(x, 1)\<close>: the nearest multiple of one tenth, a tie going to the even multiple.
\<close>

definition rint :: "real \<Rightarrow> int" where
  "rint x =
     (let f = \<lfloor>x\<rfloor>; d = x - of_int f
      in if d < 1 / 2 then f else if 1 / 2 < d then f + 1
         else if even f then f else f + 1)"

definition round1 :: "real \<Rightarrow> real" where
  "round1 x = of_int (rint (x * 10)) / 10"

text \<open>
  \<open>scipy.interpolate.interp1d(x, y, kind='cubic')\<close> is not code of this repository. It
  is a parameter of the model: given the sample lists it either raises or returns the
  fitted curve, a function that is evaluated on the grid.
\<close>

type_synonym interp1d = "real list \<Rightarrow> real list \<Rightarrow> error + (real \<Rightarrow> real)"

text \<open>
  One interpolation routine to instantiate the parameter with: the polynomial through
  the samples in Lagrange form. It refuses lists of different lengths, fewer than four
  samples and repeated abscissas. On four samples it is the cubic through them.
\<close>

definition lagrange_basis :: "real list \<Rightarrow> nat \<Rightarrow> real \<Rightarrow> real" where
  "lagrange_basis xs i x =
     prod_list (map (\<lambda>j. if j = i then 1 else (x - xs ! j) / (xs ! i - xs ! j))
                    [0..<length xs])"

definition lagrange :: "real list \<Rightarrow> real list \<Rightarrow> real \<Rightarrow> real" where
  "lagrange xs ys x =
     sum_list (map (\<lambda>i. ys ! i * lagrange_basis xs i x) [0..<length xs])"

definition polynomial_interp :: interp1d where
  "polynomial_interp xs ys =
     (if length xs \<noteq> length ys
      then Inl (ValueError ''x and y arrays must be equal in length along interpolation axis.'')
      else if length xs < 4
      then Inl (ValueError ''x and y arrays must have at least 4 entries'')
      else if distinct xs then Inr (lagrange xs ys)
      else Inl (ValueError ''Expect x to not have duplicates''))"

subsection \<open>The sweep over the number of rebelays\<close>

text \<open>
  \<^verbatim>\<open>
  ascent_times = []
  rebelay_lengths = []
  for n_rebelays in n_rebelays_range:
      rebelay_length = rope_length / (n_rebelays + 1)
      rebelay_lengths.append(rebelay_length)
      time = ascent_time(rope_length, n_cavers, n_rebelays, ascent_speed, transition_time)
      ascent_times.append(time)
  \<close>
  The loop is a recursion over the range, with the two lists as its state. An
  exception leaves the loop at once.
\<close>

fun sweep_loop ::
  "real \<Rightarrow> pyval \<Rightarrow> real \<Rightarrow> real \<Rightarrow> int list \<Rightarrow> real list \<times> real list
     \<Rightarrow> error + (real list \<times> real list)" where
  "sweep_loop rope_length n_cavers ascent_speed transition_time []
       (ascent_times, rebelay_lengths) = Inr (ascent_times, rebelay_lengths)"
| "sweep_loop rope_length n_cavers ascent_speed transition_time (n_rebelays # rest)
       (ascent_times, rebelay_lengths) =
     (case py_div rope_length (of_int (n_rebelays + 1)) of
        Inl e \<Rightarrow> Inl e
      | Inr rebelay_length \<Rightarrow>
          (case ascent_time rope_length n_cavers n_rebelays ascent_speed transition_time of
             Inl e \<Rightarrow> Inl e
           | Inr time \<Rightarrow>
               sweep_loop rope_length n_cavers ascent_speed transition_time rest
                 (ascent_times @ [time], rebelay_lengths @ [rebelay_length])))"

text \<open>Lines 19 to 28 of \<open>optimum_rebelay\<close>: the range and the loop from empty lists.\<close>

definition rebelay_sweep ::
  "real \<Rightarrow> pyval \<Rightarrow> real \<Rightarrow> real \<Rightarrow> int \<Rightarrow> error + (real list \<times> real list)" where
  "rebelay_sweep rope_length n_cavers ascent_speed transition_time max_number_rebelays =
     sweep_loop rope_length n_cavers ascent_speed transition_time
       (py_range 0 max_number_rebelays) ([], [])"

text \<open>
  The loop of \<open>optimum_rebelay_both_ways\<close>: \<open>time_up\<close> is computed before \<open>time_down\<close>,
  and their sum is the sample.
\<close>

fun sweep_loop_both_ways ::
  "real \<Rightarrow> pyval \<Rightarrow> real \<Rightarrow> real \<Rightarrow> real \<Rightarrow> int list \<Rightarrow> real list \<times> real list
     \<Rightarrow> error + (real list \<times> real list)" where
  "sweep_loop_both_ways rope_length n_cavers ascent_speed descent_speed transition_time []
       (ascent_times, rebelay_lengths) = Inr (ascent_times, rebelay_lengths)"
| "sweep_loop_both_ways rope_length n_cavers ascent_speed descent_speed transition_time
       (n_rebelays # rest) (ascent_times, rebelay_lengths) =
     (case py_div rope_length (of_int (n_rebelays + 1)) of
        Inl e \<Rightarrow> Inl e
      | Inr rebelay_length \<Rightarrow>
          (case ascent_time rope_length n_cavers n_rebelays ascent_speed transition_time of
             Inl e \<Rightarrow> Inl e
           | Inr time_up \<Rightarrow>
               (case ascent_time rope_length n_cavers n_rebelays descent_speed
                       transition_time of
                  Inl e \<Rightarrow> Inl e
                | Inr time_down \<Rightarrow>
                    sweep_loop_both_ways rope_length n_cavers ascent_speed descent_speed
                      transition_time rest
                      (ascent_times @ [time_up + time_down],
                       rebelay_lengths @ [rebelay_length]))))"

definition rebelay_sweep_both_ways ::
  "real \<Rightarrow> pyval \<Rightarrow> real \<Rightarrow> real \<Rightarrow> real \<Rightarrow> int \<Rightarrow> error + (real list \<times> real list)" where
  "rebelay_sweep_both_ways rope_length n_cavers ascent_speed descent_speed transition_time
       max_number_rebelays =
     sweep_loop_both_ways rope_length n_cavers ascent_speed descent_speed transition_time
       (py_range 0 max_number_rebelays) ([], [])"

subsection \<open>Interpolation and the minimum\<close>

text \<open>
  \<^verbatim>\<open>
  f = interp1d(rebelay_lengths, ascent_times, kind='cubic')
  x_new = np.linspace(min(rebelay_lengths), max(rebelay_lengths), num=1000, endpoint=True)
  y_new = f(x_new)
  optimum_rebelay_length = round(x_new[np.argmin(y_new)], 1)
  \<close>
  The same four lines end both optimizers. The lists go to \<open>interp1d\<close> as the loop
  built them.
\<close>

definition find_minimum :: "interp1d \<Rightarrow> real list \<Rightarrow> real list \<Rightarrow> error + real" where
  "find_minimum interp rebelay_lengths ascent_times =
     (case interp rebelay_lengths ascent_times of
        Inl e \<Rightarrow> Inl e
      | Inr f \<Rightarrow>
          (case py_min rebelay_lengths of
             Inl e \<Rightarrow> Inl e
           | Inr lo \<Rightarrow>
               (case py_max rebelay_lengths of
                  Inl e \<Rightarrow> Inl e
                | Inr hi \<Rightarrow>
                    (let x_new = linspace lo hi 1000;
                         y_new = map f x_new
                     in Inr (round1 (x_new ! argmin y_new))))))"

definition optimum_rebelay ::
  "interp1d \<Rightarrow> real \<Rightarrow> pyval \<Rightarrow> real \<Rightarrow> real \<Rightarrow> int \<Rightarrow> error + real" where
  "optimum_rebelay interp rope_length n_cavers ascent_speed transition_time
       max_number_rebelays =
     (case rebelay_sweep rope_length n_cavers ascent_speed transition_time
             max_number_rebelays of
        Inl e \<Rightarrow> Inl e
      | Inr (ascent_times, rebelay_lengths) \<Rightarrow>
          find_minimum interp rebelay_lengths ascent_times)"

definition optimum_rebelay_both_ways ::
  "interp1d \<Rightarrow> real \<Rightarrow> pyval \<Rightarrow> real \<Rightarrow> real \<Rightarrow> real \<Rightarrow> int \<Rightarrow> error + real" where
  "optimum_rebelay_both_ways interp rope_length n_cavers ascent_speed descent_speed
       transition_time max_number_rebelays =
     (case rebelay_sweep_both_ways rope_length n_cavers ascent_speed descent_speed
             transition_time max_number_rebelays of
        Inl e \<Rightarrow> Inl e
      | Inr (ascent_times, rebelay_lengths) \<Rightarrow>
          find_minimum interp rebelay_lengths ascent_times)"

section \<open>Properties of the timing model\<close>

lemma section_length_total:
  "section_length L r = Inr (if r > 0 then L / of_int (r + 1) else L)"
proof (cases "r > 0")
  case True
  then have "(of_int (r + 1) :: real) \<noteq> 0" by simp
  with True show ?thesis unfolding section_length_def py_div_def by simp
next
  case False
  then show ?thesis unfolding section_length_def by simp
qed

lemma ascent_time_value:
  assumes "isinstance_int n" and "1 \<le> int_value n" and "s \<noteq> 0"
  shows "ascent_time L n r s t =
           Inr (((if r > 0 then L / of_int (r + 1) else L) / s + t) * of_int (r + 1)
                + ((if r > 0 then L / of_int (r + 1) else L) / s + t)
                  * of_int (int_value n - 1))"
  using assms
  unfolding ascent_time_def section_length_total section_time_def py_div_def leader_time_def
  by simp



section \<open>Properties of the optimizer\<close>

subsection \<open>The sweep\<close>

lemma py_range_nonneg: "\<forall>k\<in>set (py_range 0 m). 0 \<le> k"
  unfolding py_range_def by simp

lemma length_py_range: "length (py_range 0 m) = nat m"
  unfolding py_range_def by simp

lemma py_range_nth: "i < nat m \<Longrightarrow> py_range 0 m ! i = int i"
  unfolding py_range_def by simp

lemma sweep_loop_char:
  assumes "\<forall>k\<in>set ks. 0 \<le> k"
  shows "sweep_loop L n s t ks (ts, xs) = Inr (ts', xs')
     \<longleftrightarrow> (\<exists>tn. map Inr tn = map (\<lambda>k. ascent_time L n k s t) ks \<and> ts' = ts @ tn
              \<and> xs' = xs @ map (\<lambda>k. L / of_int (k + 1)) ks)"
  using assms
proof (induction ks arbitrary: ts xs)
  case Nil
  then show ?case by auto
next
  case (Cons k ks)
  then have k: "0 \<le> k" and ks: "\<forall>k\<in>set ks. 0 \<le> k" by simp_all
  have d: "py_div L (of_int (k + 1)) = Inr (L / of_int (k + 1))"
    using k unfolding py_div_def by simp
  show ?case
  proof (cases "ascent_time L n k s t")
    case (Inl e)
    then show ?thesis using d by auto
  next
    case (Inr v)
    show ?thesis
      using d Inr Cons.IH [OF ks, of "ts @ [v]" "xs @ [L / of_int (k + 1)]"]
      by (auto simp: map_eq_Cons_conv Cons_eq_map_conv)
  qed
qed

lemma rebelay_sweep_char:
  "rebelay_sweep L n s t m = Inr (ts, xs)
     \<longleftrightarrow> xs = map (\<lambda>k. L / of_int (k + 1)) (py_range 0 m)
         \<and> map Inr ts = map (\<lambda>k. ascent_time L n k s t) (py_range 0 m)"
  unfolding rebelay_sweep_def
  using sweep_loop_char [OF py_range_nonneg, of L n s t m "[]" "[]" ts xs]
  by auto

lemma rebelay_sweep_returns:
  assumes "isinstance_int n" and "1 \<le> int_value n" and "s \<noteq> 0"
  shows "\<exists>ts. rebelay_sweep L n s t m
                = Inr (ts, map (\<lambda>k. L / of_int (k + 1)) (py_range 0 m))
              \<and> length ts = nat m"
proof -
  define ts where "ts = map (\<lambda>k. projr (ascent_time L n k s t)) (py_range 0 m)"
  have "\<And>k. Inr (projr (ascent_time L n k s t)) = ascent_time L n k s t"
    using ascent_time_value [OF assms] by simp
  then have "map Inr ts = map (\<lambda>k. ascent_time L n k s t) (py_range 0 m)"
    unfolding ts_def by simp
  moreover have "length ts = nat m"
    unfolding ts_def by (simp add: length_py_range)
  ultimately show ?thesis
    using rebelay_sweep_char [of L n s t m ts] by blast
qed

lemma sweep_loop_acc:
  "sweep_loop L n s t ks (ts, xs) =
     (case sweep_loop L n s t ks ([], []) of
        Inl e \<Rightarrow> Inl e
      | Inr (tn, xn) \<Rightarrow> Inr (ts @ tn, xs @ xn))"
proof (induction ks arbitrary: ts xs)
  case Nil
  show ?case by simp
next
  case (Cons k ks)
  show ?case
  proof (cases "py_div L (of_int (k + 1))")
    case (Inl e)
    then show ?thesis by simp
  next
    case d: (Inr x)
    show ?thesis
    proof (cases "ascent_time L n k s t")
      case (Inl e)
      then show ?thesis using d by simp
    next
      case (Inr v)
      have 1: "sweep_loop L n s t (k # ks) (ts, xs) = sweep_loop L n s t ks (ts @ [v], xs @ [x])"
        using d Inr by simp
      have 2: "sweep_loop L n s t (k # ks) ([], []) = sweep_loop L n s t ks ([v], [x])"
        using d Inr by simp
      show ?thesis
        unfolding 1 2 Cons.IH [of "ts @ [v]" "xs @ [x]"] Cons.IH [of "[v]" "[x]"]
        by (simp split: sum.splits)
    qed
  qed
qed

lemma sweep_loop_both_ways_same_speed:
  "sweep_loop_both_ways L n s s t ks (ts, xs) =
     (case sweep_loop L n s t ks ([], []) of
        Inl e \<Rightarrow> Inl e
      | Inr (tn, xn) \<Rightarrow> Inr (ts @ map (\<lambda>y. y + y) tn, xs @ xn))"
proof (induction ks arbitrary: ts xs)
  case Nil
  show ?case by simp
next
  case (Cons k ks)
  show ?case
  proof (cases "py_div L (of_int (k + 1))")
    case (Inl e)
    then show ?thesis by simp
  next
    case d: (Inr x)
    show ?thesis
    proof (cases "ascent_time L n k s t")
      case (Inl e)
      then show ?thesis using d by simp
    next
      case (Inr v)
      have 1: "sweep_loop_both_ways L n s s t (k # ks) (ts, xs)
                 = sweep_loop_both_ways L n s s t ks (ts @ [v + v], xs @ [x])"
        using d Inr by simp
      have 2: "sweep_loop L n s t (k # ks) ([], []) = sweep_loop L n s t ks ([v], [x])"
        using d Inr by simp
      show ?thesis
        unfolding 1 2 Cons.IH [of "ts @ [v + v]" "xs @ [x]"]
          sweep_loop_acc [of L n s t ks "[v]" "[x]"]
        by (simp split: sum.splits)
    qed
  qed
qed

lemma rebelay_sweep_both_ways_same_speed:
  "rebelay_sweep_both_ways L n s s t m =
     (case rebelay_sweep L n s t m of
        Inl e \<Rightarrow> Inl e
      | Inr (ts, xs) \<Rightarrow> Inr (map (\<lambda>y. y + y) ts, xs))"
  unfolding rebelay_sweep_both_ways_def rebelay_sweep_def
  by (subst sweep_loop_both_ways_same_speed) (simp split: sum.splits)

subsection \<open>Rounding\<close>

lemma rint_ge_floor: "\<lfloor>x\<rfloor> \<le> rint x"
  unfolding rint_def Let_def by simp

lemma rint_le_floor_Suc: "rint x \<le> \<lfloor>x\<rfloor> + 1"
  unfolding rint_def Let_def by simp

lemma rint_mono:
  assumes "x \<le> y"
  shows "rint x \<le> rint y"
proof -
  have "\<lfloor>x\<rfloor> \<le> \<lfloor>y\<rfloor>" using assms by (rule floor_mono)
  then consider "\<lfloor>x\<rfloor> < \<lfloor>y\<rfloor>" | "\<lfloor>x\<rfloor> = \<lfloor>y\<rfloor>" by linarith
  then show ?thesis
  proof cases
    case 1
    have "rint x \<le> \<lfloor>x\<rfloor> + 1" by (rule rint_le_floor_Suc)
    also have "\<dots> \<le> \<lfloor>y\<rfloor>" using 1 by simp
    also have "\<dots> \<le> rint y" by (rule rint_ge_floor)
    finally show ?thesis .
  next
    case 2
    have "x - of_int \<lfloor>y\<rfloor> \<le> y - of_int \<lfloor>y\<rfloor>" using assms by simp
    then show ?thesis unfolding rint_def Let_def 2 by auto
  qed
qed

lemma round1_mono: "x \<le> y \<Longrightarrow> round1 x \<le> round1 y"
  unfolding round1_def using rint_mono [of "x * 10" "y * 10"] by (simp add: divide_right_mono)

lemma rint_nonneg: "0 \<le> x \<Longrightarrow> 0 \<le> rint x"
  using rint_ge_floor [of x] by (simp add: order_trans [of 0 "\<lfloor>x\<rfloor>"])

lemma round1_nonneg: "0 \<le> x \<Longrightarrow> 0 \<le> round1 x"
  unfolding round1_def using rint_nonneg [of "x * 10"] by simp

lemma round1_small:
  assumes "0 \<le> x" and "x < 1 / 20"
  shows "round1 x = 0"
proof -
  have "\<lfloor>x * 10\<rfloor> = 0" using assms by (intro floor_unique) simp_all
  then show ?thesis unfolding round1_def rint_def Let_def using assms by simp
qed

lemma round1_upto_tenth:
  assumes "0 \<le> x" and "x \<le> 1 / 10"
  shows "round1 x = 0 \<or> round1 x = 1 / 10"
proof -
  have "rint 0 \<le> rint (x * 10)" using assms(1) by (intro rint_mono) simp
  moreover have "rint (x * 10) \<le> rint 1" using assms(2) by (intro rint_mono) simp
  moreover have "rint 0 = 0" and "rint 1 = 1" unfolding rint_def Let_def by simp_all
  ultimately have "rint (x * 10) = 0 \<or> rint (x * 10) = 1" by linarith
  then show ?thesis unfolding round1_def by auto
qed

subsection \<open>The grid and the index of the minimum\<close>

lemma length_linspace: "length (linspace a b n) = n"
  unfolding linspace_def by simp

lemma linspace_nth:
  "i < n \<Longrightarrow> linspace a b n ! i = a + of_nat i * ((b - a) / of_nat (n - 1))"
  unfolding linspace_def by simp

lemma linspace_bounds:
  assumes "a \<le> b" and "i < n"
  shows "a \<le> linspace a b n ! i" and "linspace a b n ! i \<le> b"
proof -
  define c where "c = (of_nat i :: real) / of_nat (n - 1)"
  have c0: "0 \<le> c" unfolding c_def by simp
  have le: "(of_nat i :: real) \<le> of_nat (n - 1)" using assms(2) by simp
  have c1: "c \<le> 1"
  proof (cases "n - 1 = 0")
    case True
    then show ?thesis unfolding c_def by simp
  next
    case False
    then have "(0::real) < of_nat (n - 1)" by simp
    then show ?thesis unfolding c_def using le by (simp only: divide_le_eq_1_pos)
  qed
  have v: "linspace a b n ! i = a + c * (b - a)"
    using assms(2) unfolding c_def by (simp add: linspace_nth)
  have "0 \<le> c * (b - a)" using c0 assms(1) by simp
  then show "a \<le> linspace a b n ! i" unfolding v by simp
  have "c * (b - a) \<le> 1 * (b - a)" using c1 assms(1) by (intro mult_right_mono) simp_all
  then show "linspace a b n ! i \<le> b" unfolding v by simp
qed

lemma argmin_less: "ys \<noteq> [] \<Longrightarrow> argmin ys < length ys"
  by (induction ys rule: argmin.induct) (simp_all add: Let_def)

lemma argmin_double: "argmin (map (\<lambda>y. y + y) ys) = argmin ys"
proof (induction ys rule: argmin.induct)
  case 1
  show ?case by simp
next
  case (2 y)
  show ?case by simp
next
  case (3 y z zs)
  have "argmin (z # zs) < length (z # zs)" by (rule argmin_less) simp
  then have "map (\<lambda>y. y + y) (z # zs) ! argmin (z # zs)
               = (z # zs) ! argmin (z # zs) + (z # zs) ! argmin (z # zs)"
    by (rule nth_map)
  then show ?case using 3 by (simp add: Let_def)
qed

subsection \<open>The sampled section lengths\<close>

lemma py_min_Min:
  assumes "xs \<noteq> []"
  shows "py_min xs = Inr (Min (set xs))"
proof -
  obtain a rest where xs: "xs = a # rest" using assms by (cases xs) auto
  have "fold min rest a = Min (set (a # rest))" by (rule Min.set_eq_fold [symmetric])
  then show ?thesis unfolding py_min_def xs by simp
qed

lemma py_max_Max:
  assumes "xs \<noteq> []"
  shows "py_max xs = Inr (Max (set xs))"
proof -
  obtain a rest where xs: "xs = a # rest" using assms by (cases xs) auto
  have "fold max rest a = Max (set (a # rest))" by (rule Max.set_eq_fold [symmetric])
  then show ?thesis unfolding py_max_def xs by simp
qed

lemma set_py_range: "set (py_range 0 m) = {k. 0 \<le> k \<and> k < m}"
  unfolding py_range_def by auto

lemma py_range_empty: "m \<le> 0 \<Longrightarrow> py_range 0 m = []"
  unfolding py_range_def by simp

lemma lengths_decreasing:
  assumes "0 < (L::real)"
  shows "sorted_wrt (>) (map (\<lambda>k. L / of_int (k + 1)) (py_range 0 m))"
proof -
  have srt: "sorted_wrt (<) (py_range 0 m)" unfolding py_range_def by (rule sorted_wrt_upto)
  have "sorted_wrt (\<lambda>j k. L / of_int (j + 1) > L / of_int (k + 1)) (py_range 0 m)"
  proof (rule sorted_wrt_mono_rel [OF _ srt])
    fix j k assume "j \<in> set (py_range 0 m)" and "j < k"
    then have j: "(0::real) < of_int (j + 1)" and jk: "(of_int (j + 1) :: real) < of_int (k + 1)"
      unfolding set_py_range by simp_all
    have "L \<le> L" by simp
    with assms show "L / of_int (j + 1) > L / of_int (k + 1)"
      using j jk by (rule frac_less2)
  qed
  then show ?thesis unfolding sorted_wrt_map .
qed

lemma lengths_distinct:
  assumes "0 < (L::real)"
  shows "distinct (map (\<lambda>k. L / of_int (k + 1)) (py_range 0 m))"
proof -
  have "sorted_wrt (<) (rev (map (\<lambda>k. L / of_int (k + 1)) (py_range 0 m)))"
    unfolding sorted_wrt_rev using lengths_decreasing [OF assms] by simp
  then have "distinct (rev (map (\<lambda>k. L / of_int (k + 1)) (py_range 0 m)))"
    unfolding strict_sorted_iff by simp
  then show ?thesis by simp
qed

lemma lengths_Max:
  assumes "0 < (L::real)" and "1 \<le> m"
  shows "Max (set (map (\<lambda>k. L / of_int (k + 1)) (py_range 0 m))) = L"
proof (rule Max_eqI)
  show "finite (set (map (\<lambda>k. L / of_int (k + 1)) (py_range 0 m)))" by simp
next
  fix y assume "y \<in> set (map (\<lambda>k. L / of_int (k + 1)) (py_range 0 m))"
  then obtain k where k: "0 \<le> k" and y: "y = L / of_int (k + 1)"
    unfolding set_map set_py_range by auto
  have "(1::real) \<le> of_int (k + 1)" using k by simp
  with assms(1) have "L / of_int (k + 1) \<le> L / 1"
    by (intro frac_le) simp_all
  then show "y \<le> L" unfolding y by simp
next
  have "0 \<in> set (py_range 0 m)" using assms(2) unfolding set_py_range by simp
  then have "L / of_int (0 + 1) \<in> set (map (\<lambda>k. L / of_int (k + 1)) (py_range 0 m))"
    unfolding set_map by (rule imageI)
  then show "L \<in> set (map (\<lambda>k. L / of_int (k + 1)) (py_range 0 m))" by simp
qed

lemma lengths_Min:
  assumes "0 < (L::real)" and "1 \<le> m"
  shows "Min (set (map (\<lambda>k. L / of_int (k + 1)) (py_range 0 m))) = L / of_int m"
proof (rule Min_eqI)
  show "finite (set (map (\<lambda>k. L / of_int (k + 1)) (py_range 0 m)))" by simp
next
  fix y assume "y \<in> set (map (\<lambda>k. L / of_int (k + 1)) (py_range 0 m))"
  then obtain k where k: "0 \<le> k" "k < m" and y: "y = L / of_int (k + 1)"
    unfolding set_map set_py_range by auto
  have "(of_int (k + 1) :: real) \<le> of_int m" and "(0::real) < of_int (k + 1)"
    using k by simp_all
  with assms(1) have "L / of_int m \<le> L / of_int (k + 1)"
    by (intro frac_le) simp_all
  then show "L / of_int m \<le> y" unfolding y .
next
  have "m - 1 \<in> set (py_range 0 m)" using assms(2) unfolding set_py_range by simp
  then have "L / of_int (m - 1 + 1) \<in> set (map (\<lambda>k. L / of_int (k + 1)) (py_range 0 m))"
    unfolding set_map by (rule imageI)
  then show "L / of_int m \<in> set (map (\<lambda>k. L / of_int (k + 1)) (py_range 0 m))" by simp
qed

subsection \<open>The last four lines\<close>

lemma find_minimum_error:
  "interp xs ts = Inl e \<Longrightarrow> find_minimum interp xs ts = Inl e"
  unfolding find_minimum_def by simp

lemma find_minimum_empty:
  "find_minimum interp [] ts =
     (case interp [] ts of
        Inl e \<Rightarrow> Inl e
      | Inr f \<Rightarrow> Inl (ValueError ''min() arg is an empty sequence''))"
  unfolding find_minimum_def py_min_def by (simp split: sum.splits)

lemma find_minimum_value:
  assumes "xs \<noteq> []" and "interp xs ts = Inr f"
  shows "find_minimum interp xs ts =
           Inr (round1 (linspace (Min (set xs)) (Max (set xs)) 1000
                          ! argmin (map f (linspace (Min (set xs)) (Max (set xs)) 1000))))"
  unfolding find_minimum_def using assms
  by (simp add: py_min_Min py_max_Max Let_def)

lemma find_minimum_grid_point:
  assumes "xs \<noteq> []" and "interp xs ts = Inr f"
  shows "\<exists>x. find_minimum interp xs ts = Inr (round1 x)
            \<and> Min (set xs) \<le> x \<and> x \<le> Max (set xs)"
proof -
  define grid where "grid = linspace (Min (set xs)) (Max (set xs)) 1000"
  define i where "i = argmin (map f grid)"
  have len: "length (map f grid) = 1000" unfolding grid_def by (simp add: length_linspace)
  then have "map f grid \<noteq> []" by auto
  then have "i < length (map f grid)" unfolding i_def by (rule argmin_less)
  then have i: "i < 1000" unfolding len .
  have le: "Min (set xs) \<le> Max (set xs)" using assms(1) by simp
  have "Min (set xs) \<le> grid ! i" and "grid ! i \<le> Max (set xs)"
    unfolding grid_def using linspace_bounds [OF le i] by simp_all
  moreover have "find_minimum interp xs ts = Inr (round1 (grid ! i))"
    unfolding grid_def i_def using assms by (rule find_minimum_value)
  ultimately show ?thesis by blast
qed

lemma find_minimum_double:
  assumes "\<And>xs ys. interp xs (map (\<lambda>y. y + y) ys)
                     = map_sum id (\<lambda>f x. f x + f x) (interp xs ys)"
  shows "find_minimum interp xs (map (\<lambda>y. y + y) ts) = find_minimum interp xs ts"
proof (cases "interp xs ts")
  case (Inl e)
  then have "interp xs (map (\<lambda>y. y + y) ts) = Inl e" using assms [of xs ts] by simp
  then show ?thesis using Inl by (simp add: find_minimum_error)
next
  case (Inr f)
  then have d: "interp xs (map (\<lambda>y. y + y) ts) = Inr (\<lambda>x. f x + f x)"
    using assms [of xs ts] by simp
  have "\<And>g. map (\<lambda>x. f x + f x) g = map (\<lambda>y. y + y) (map f g)" by simp
  then have m: "\<And>g. argmin (map (\<lambda>x. f x + f x) g) = argmin (map f g)"
    by (simp only: argmin_double)
  show ?thesis
    unfolding find_minimum_def d Inr Let_def sum.case m ..
qed

subsection \<open>The polynomial interpolation routine\<close>

lemma lagrange_double:
  assumes "length ys = length xs"
  shows "lagrange xs (map (\<lambda>y. y + y) ys) x = lagrange xs ys x + lagrange xs ys x"
proof -
  have "map (\<lambda>i. map (\<lambda>y. y + y) ys ! i * lagrange_basis xs i x) [0..<length xs]
          = map (\<lambda>i. ys ! i * lagrange_basis xs i x + ys ! i * lagrange_basis xs i x)
                [0..<length xs]"
    using assms by (intro map_cong) (simp_all add: algebra_simps)
  then show ?thesis unfolding lagrange_def by (simp only: sum_list_addf)
qed

lemma polynomial_interp_double:
  "polynomial_interp xs (map (\<lambda>y. y + y) ys)
     = map_sum id (\<lambda>f x. f x + f x) (polynomial_interp xs ys)"
proof (cases "length xs = length ys \<and> \<not> length xs < 4 \<and> distinct xs")
  case True
  then have "lagrange xs (map (\<lambda>y. y + y) ys) = (\<lambda>x. lagrange xs ys x + lagrange xs ys x)"
    by (intro ext lagrange_double) simp
  then show ?thesis using True unfolding polynomial_interp_def by simp
next
  case False
  then show ?thesis unfolding polynomial_interp_def by auto
qed

lemma polynomial_interp_accepts:
  assumes "length xs = length ys" and "4 \<le> length xs" and "distinct xs"
  shows "polynomial_interp xs ys = Inr (lagrange xs ys)"
  using assms unfolding polynomial_interp_def by simp

subsection \<open>The optimizer on the sampled lists\<close>

lemma optimum_rebelay_on_samples:
  assumes "isinstance_int n" and "1 \<le> int_value n" and "s \<noteq> 0"
  shows "\<exists>ts. length ts = nat m
            \<and> rebelay_sweep L n s t m
                 = Inr (ts, map (\<lambda>k. L / of_int (k + 1)) (py_range 0 m))
            \<and> optimum_rebelay interp L n s t m
                 = find_minimum interp (map (\<lambda>k. L / of_int (k + 1)) (py_range 0 m)) ts"
proof -
  obtain ts where ts: "rebelay_sweep L n s t m
                         = Inr (ts, map (\<lambda>k. L / of_int (k + 1)) (py_range 0 m))"
    and len: "length ts = nat m"
    using rebelay_sweep_returns [OF assms, of L t m] by blast
  have "optimum_rebelay interp L n s t m
          = find_minimum interp (map (\<lambda>k. L / of_int (k + 1)) (py_range 0 m)) ts"
    unfolding optimum_rebelay_def ts by simp
  with ts len show ?thesis by blast
qed

lemma optimum_rebelay_outcomes:
  assumes "0 < L" and "1 \<le> m" and "isinstance_int n" and "1 \<le> int_value n" and "s \<noteq> 0"
  shows "(\<exists>e. optimum_rebelay interp L n s t m = Inl e)
         \<or> (\<exists>x. optimum_rebelay interp L n s t m = Inr (round1 x)
                \<and> L / of_int m \<le> x \<and> x \<le> L)"
proof -
  define xs where "xs = map (\<lambda>k. L / of_int (k + 1)) (py_range 0 m)"
  obtain ts where opt: "optimum_rebelay interp L n s t m = find_minimum interp xs ts"
    unfolding xs_def using optimum_rebelay_on_samples [OF assms(3-5), of m L t interp] by blast
  have ne: "xs \<noteq> []" unfolding xs_def using assms(2) by (simp add: py_range_def)
  have mn: "Min (set xs) = L / of_int m" unfolding xs_def using assms(1,2) by (rule lengths_Min)
  have mx: "Max (set xs) = L" unfolding xs_def using assms(1,2) by (rule lengths_Max)
  show ?thesis
  proof (cases "interp xs ts")
    case (Inl e)
    then show ?thesis unfolding opt by (simp add: find_minimum_error)
  next
    case (Inr f)
    show ?thesis
      unfolding opt
      using find_minimum_grid_point [where interp = interp and xs = xs and ts = ts and f = f]
        ne Inr
      unfolding mn mx by blast
  qed
qed

lemma optimum_rebelay_returns:
  assumes "0 < L" and "1 \<le> m" and "isinstance_int n" and "1 \<le> int_value n" and "s \<noteq> 0"
    and acc: "\<And>xs ys. length xs = nat m \<Longrightarrow> length ys = nat m \<Longrightarrow> distinct xs
                \<Longrightarrow> \<exists>f. interp xs ys = Inr f"
  shows "\<exists>x. optimum_rebelay interp L n s t m = Inr (round1 x)
            \<and> L / of_int m \<le> x \<and> x \<le> L"
proof -
  define xs where "xs = map (\<lambda>k. L / of_int (k + 1)) (py_range 0 m)"
  obtain ts where len: "length ts = nat m"
    and opt: "optimum_rebelay interp L n s t m = find_minimum interp xs ts"
    unfolding xs_def using optimum_rebelay_on_samples [OF assms(3-5), of m L t interp] by blast
  have "length xs = nat m" unfolding xs_def by (simp add: length_py_range)
  moreover have "distinct xs" unfolding xs_def using assms(1) by (rule lengths_distinct)
  ultimately obtain f where f: "interp xs ts = Inr f" using acc len by blast
  have ne: "xs \<noteq> []" unfolding xs_def using assms(2) by (simp add: py_range_def)
  have mn: "Min (set xs) = L / of_int m" unfolding xs_def using assms(1,2) by (rule lengths_Min)
  have mx: "Max (set xs) = L" unfolding xs_def using assms(1,2) by (rule lengths_Max)
  show ?thesis
    unfolding opt
    using find_minimum_grid_point [where interp = interp and xs = xs and ts = ts and f = f]
      ne f
    unfolding mn mx by blast
qed

lemma optimum_rebelay_no_samples:
  assumes "m \<le> 0"
  shows "rebelay_sweep L n s t m = Inr ([], [])"
    and "optimum_rebelay interp L n s t m =
           (case interp [] [] of
              Inl e \<Rightarrow> Inl e
            | Inr f \<Rightarrow> Inl (ValueError ''min() arg is an empty sequence''))"
proof -
  show r: "rebelay_sweep L n s t m = Inr ([], [])"
    unfolding rebelay_sweep_def using assms by (simp add: py_range_empty)
  show "optimum_rebelay interp L n s t m =
           (case interp [] [] of
              Inl e \<Rightarrow> Inl e
            | Inr f \<Rightarrow> Inl (ValueError ''min() arg is an empty sequence''))"
    unfolding optimum_rebelay_def r by (simp add: find_minimum_empty)
qed

section \<open>The claims about the timing model\<close>







text \<open>
  Claim C9. \<open>ascent_time(100, 4, 3, 7, 2)\<close>: the section length is 25, the section
  time is \<open>25/7 + 2\<close>, the leader time is four section times, and three more section
  times give \<open>7 * (25/7 + 2) = 39\<close> exactly.
\<close>

theorem ascent_time_example:
  "section_length 100 3 = Inr 25
   \<and> section_time 25 7 2 = Inr (25 / 7 + 2)
   \<and> leader_time (25 / 7 + 2) 3 = 4 * (25 / 7 + 2)
   \<and> ascent_time 100 (PInt 4) 3 7 2 = Inr (4 * (25 / 7 + 2) + 3 * (25 / 7 + 2))
   \<and> ascent_time 100 (PInt 4) 3 7 2 = Inr (7 * (25 / 7 + 2))
   \<and> ascent_time 100 (PInt 4) 3 7 2 = Inr 39"
  unfolding ascent_time_def section_length_def section_time_def leader_time_def py_div_def
  by simp

theorem ascent_time_example_witness:
  "isinstance_int (PInt 4) \<and> \<not> int_value (PInt 4) < 1
   \<and> ascent_time 100 (PInt 4) 3 7 2 = Inr 39"
  using ascent_time_example by simp



section \<open>The claims about the optimizer\<close>

text \<open>
  Claim C2. For \<open>max_number_rebelays \<ge> 1\<close> the loop of \<open>optimum_rebelay\<close> runs over
  exactly the counts \<open>0 .. max_number_rebelays - 1\<close>. It returns two lists exactly when
  every call of \<open>ascent_time\<close> returns; they then have \<open>max_number_rebelays\<close> entries
  each, entry \<open>i\<close> being \<open>rope_length / (i + 1)\<close> and the value of \<open>ascent_time\<close> at
  \<open>i\<close> rebelays. For a valid \<open>n_cavers\<close> and a nonzero speed it does return. The two
  lists are what \<open>optimum_rebelay\<close> interpolates.
\<close>

theorem rebelay_sweep_samples:
  assumes "1 \<le> m"
  shows "(rebelay_sweep L n s t m = Inr (ts, xs)
            \<longleftrightarrow> xs = map (\<lambda>k. L / of_int (k + 1)) [0..m - 1]
                \<and> map Inr ts = map (\<lambda>k. ascent_time L n k s t) [0..m - 1])
         \<and> (rebelay_sweep L n s t m = Inr (ts, xs) \<longrightarrow>
               length xs = nat m \<and> length ts = nat m
               \<and> (\<forall>i<nat m. xs ! i = L / (of_nat i + 1)
                              \<and> ascent_time L n (int i) s t = Inr (ts ! i)))
         \<and> (isinstance_int n \<and> 1 \<le> int_value n \<and> s \<noteq> 0 \<longrightarrow>
               (\<exists>ts xs. rebelay_sweep L n s t m = Inr (ts, xs)))
         \<and> optimum_rebelay interp L n s t m =
               (case rebelay_sweep L n s t m of
                  Inl e \<Rightarrow> Inl e
                | Inr (ascent_times, rebelay_lengths) \<Rightarrow>
                    find_minimum interp rebelay_lengths ascent_times)"
proof (intro conjI impI)
  show "rebelay_sweep L n s t m = Inr (ts, xs)
          \<longleftrightarrow> xs = map (\<lambda>k. L / of_int (k + 1)) [0..m - 1]
              \<and> map Inr ts = map (\<lambda>k. ascent_time L n k s t) [0..m - 1]"
    using rebelay_sweep_char [of L n s t m ts xs] unfolding py_range_def by simp
next
  assume r: "rebelay_sweep L n s t m = Inr (ts, xs)"
  then have xs: "xs = map (\<lambda>k. L / of_int (k + 1)) (py_range 0 m)"
    and ts: "map Inr ts = map (\<lambda>k. ascent_time L n k s t) (py_range 0 m)"
    using rebelay_sweep_char [of L n s t m ts xs] by simp_all
  show lx: "length xs = nat m" unfolding xs by (simp add: length_py_range)
  have "length (map Inr ts :: (error + real) list) = nat m"
    unfolding ts by (simp add: length_py_range)
  then show lt: "length ts = nat m" by simp
  show "\<forall>i<nat m. xs ! i = L / (of_nat i + 1) \<and> ascent_time L n (int i) s t = Inr (ts ! i)"
  proof (intro allI impI)
    fix i assume i: "i < nat m"
    have a: "xs ! i = L / (of_nat i + 1)"
      unfolding xs using i by (simp add: length_py_range py_range_nth)
    have "(map Inr ts :: (error + real) list) ! i = Inr (ts ! i)"
      using i lt by simp
    moreover have "map (\<lambda>k. ascent_time L n k s t) (py_range 0 m) ! i
                     = ascent_time L n (int i) s t"
      using i by (simp add: length_py_range py_range_nth)
    ultimately have "ascent_time L n (int i) s t = Inr (ts ! i)"
      using ts by simp
    with a show "xs ! i = L / (of_nat i + 1) \<and> ascent_time L n (int i) s t = Inr (ts ! i)"
      by simp
  qed
next
  assume "isinstance_int n \<and> 1 \<le> int_value n \<and> s \<noteq> 0"
  then show "\<exists>ts xs. rebelay_sweep L n s t m = Inr (ts, xs)"
    using rebelay_sweep_returns [of n s L t m] by blast
next
  show "optimum_rebelay interp L n s t m =
          (case rebelay_sweep L n s t m of
             Inl e \<Rightarrow> Inl e
           | Inr (ascent_times, rebelay_lengths) \<Rightarrow>
               find_minimum interp rebelay_lengths ascent_times)"
    unfolding optimum_rebelay_def ..
qed

theorem rebelay_sweep_samples_witness:
  "(1::int) \<le> 3
   \<and> rebelay_sweep 100 (PInt 4) 7 2 3 = Inr ([456 / 7, 320 / 7, 284 / 7], [100, 50, 100 / 3])
   \<and> length [100, 50, 100 / 3 :: real] = nat 3
   \<and> length [456 / 7, 320 / 7, 284 / 7 :: real] = nat 3
   \<and> isinstance_int (PInt 4) \<and> 1 \<le> int_value (PInt 4) \<and> (7::real) \<noteq> 0"
  using rebelay_sweep_samples [of 3 100 "PInt 4" 7 2 "[456 / 7, 320 / 7, 284 / 7]"
          "[100, 50, 100 / 3]"]
  by (simp add: ascent_time_def section_length_def section_time_def leader_time_def
        py_div_def upto_rec1)

text \<open>
  Claim C4, as the code has it. For \<open>max_number_rebelays \<le> 0\<close> the range is empty: the
  loop body never runs, \<open>ascent_time\<close> is never called and no argument is checked. The
  two empty lists go to \<open>interp1d\<close>. What it raises on them is what \<open>optimum_rebelay\<close>
  raises; were it to return a curve, \<open>min\<close> of the empty list raises \<open>ValueError\<close>. So
  the call always fails, but only in or after the interpolation call.
\<close>

theorem optimum_rebelay_empty_sweep:
  assumes "m \<le> 0"
  shows "rebelay_sweep L n s t m = Inr ([], [])
         \<and> optimum_rebelay interp L n s t m =
             (case interp [] [] of
                Inl e \<Rightarrow> Inl e
              | Inr f \<Rightarrow> Inl (ValueError ''min() arg is an empty sequence''))
         \<and> (\<exists>e. optimum_rebelay interp L n s t m = Inl e)"
proof -
  have r: "rebelay_sweep L n s t m = Inr ([], [])"
    using assms by (rule optimum_rebelay_no_samples(1))
  have o: "optimum_rebelay interp L n s t m =
             (case interp [] [] of
                Inl e \<Rightarrow> Inl e
              | Inr f \<Rightarrow> Inl (ValueError ''min() arg is an empty sequence''))"
    using assms by (rule optimum_rebelay_no_samples(2))
  have "\<exists>e. optimum_rebelay interp L n s t m = Inl e"
    unfolding o by (cases "interp [] []") simp_all
  with r o show ?thesis by simp
qed

theorem optimum_rebelay_empty_sweep_witness:
  "(0::int) \<le> 0
   \<and> rebelay_sweep 100 (PInt 4) 7 2 0 = Inr ([], [])
   \<and> optimum_rebelay polynomial_interp 100 (PInt 4) 7 2 0
        = Inl (ValueError ''x and y arrays must have at least 4 entries'')"
  using optimum_rebelay_empty_sweep [of 0 100 "PInt 4" 7 2 polynomial_interp]
  by (simp add: polynomial_interp_def)

text \<open>
  The claim as the spec states it fails: with no samples the function does not stop
  before the interpolation. The loop returns two empty lists, also for an invalid
  \<open>n_cavers\<close>, and the error of the call is the one the interpolation routine raises.
\<close>

theorem optimum_rebelay_empty_sweep_counterexample:
  "rebelay_sweep 100 (PInt 0) 7 2 0 = Inr ([], [])
   \<and> polynomial_interp [] []
        = Inl (ValueError ''x and y arrays must have at least 4 entries'')
   \<and> optimum_rebelay polynomial_interp 100 (PInt 0) 7 2 0
        = Inl (ValueError ''x and y arrays must have at least 4 entries'')
   \<and> optimum_rebelay (\<lambda>xs ys. Inl ZeroDivisionError) 100 (PInt 4) 7 2 (- 3)
        = Inl ZeroDivisionError"
  unfolding optimum_rebelay_def rebelay_sweep_def py_range_def find_minimum_def
    polynomial_interp_def
  by simp

text \<open>
  Claim C5, as the code has it. For a rope length and a speed above zero, an integer
  \<open>n_cavers \<ge> 1\<close>, a transition time of at least zero and 100 candidate counts, and an
  interpolation routine that accepts 100 samples with distinct abscissas,
  \<open>optimum_rebelay\<close> returns a grid point \<open>x\<close> of \<open>[rope_length / 100, rope_length]\<close>
  rounded to one decimal. The result lies between the two rounded end points and is at
  least zero. The rounding makes neither strict bound of the spec hold in general.
\<close>

theorem optimum_rebelay_range:
  assumes "0 < L" and "1 \<le> n" and "0 < s" and "0 \<le> t"
    and "\<And>xs ys. length xs = 100 \<Longrightarrow> length ys = 100 \<Longrightarrow> distinct xs
           \<Longrightarrow> \<exists>f. interp xs ys = Inr f"
  shows "\<exists>r x. optimum_rebelay interp L (PInt n) s t 100 = Inr r
              \<and> r = round1 x \<and> L / 100 \<le> x \<and> x \<le> L
              \<and> round1 (L / 100) \<le> r \<and> r \<le> round1 L \<and> 0 \<le> r"
proof -
  have acc: "\<And>xs ys. length xs = nat 100 \<Longrightarrow> length ys = nat 100 \<Longrightarrow> distinct xs
               \<Longrightarrow> \<exists>f. interp xs ys = Inr f"
    using assms(5) by simp
  have m: "(1::int) \<le> 100" by simp
  have i: "isinstance_int (PInt n)" by simp
  have v: "1 \<le> int_value (PInt n)" using assms(2) by simp
  have nz: "s \<noteq> 0" using assms(3) by simp
  have "\<exists>x. optimum_rebelay interp L (PInt n) s t 100 = Inr (round1 x)
            \<and> L / of_int 100 \<le> x \<and> x \<le> L"
    using assms(1) m i v nz acc by (rule optimum_rebelay_returns)
  then obtain x where opt: "optimum_rebelay interp L (PInt n) s t 100 = Inr (round1 x)"
    and lo: "L / 100 \<le> x" and hi: "x \<le> L"
    by auto
  have "0 \<le> L / 100" using assms(1) by simp
  then have a: "0 \<le> round1 (L / 100)" by (rule round1_nonneg)
  have b: "round1 (L / 100) \<le> round1 x" using lo by (rule round1_mono)
  have c: "round1 x \<le> round1 L" using hi by (rule round1_mono)
  have d: "0 \<le> round1 x" using a b by simp
  show ?thesis
    using opt lo hi b c d by blast
qed

theorem optimum_rebelay_range_witness:
  "(0::real) < 100 \<and> (1::int) \<le> 4 \<and> (0::real) < 7 \<and> (0::real) \<le> 2
   \<and> (\<exists>r. optimum_rebelay polynomial_interp 100 (PInt 4) 7 2 100 = Inr r
           \<and> 1 \<le> r \<and> r \<le> 100)"
proof -
  have acc: "\<And>xs ys. length xs = 100 \<Longrightarrow> length ys = 100 \<Longrightarrow> distinct xs
               \<Longrightarrow> \<exists>f. polynomial_interp xs ys = Inr f"
    by (simp add: polynomial_interp_accepts)
  have r1: "round1 (100 / 100) = 1" and r100: "round1 100 = 100"
    unfolding round1_def rint_def Let_def by simp_all
  have h1: "(0::real) < 100" and h2: "(1::int) \<le> 4" and h3: "(0::real) < 7"
    and h4: "(0::real) \<le> 2"
    by simp_all
  obtain r where "optimum_rebelay polynomial_interp 100 (PInt 4) 7 2 100 = Inr r"
    and "round1 (100 / 100) \<le> r" and "r \<le> round1 100"
    using optimum_rebelay_range [where interp = polynomial_interp, OF h1 h2 h3 h4 acc]
    by blast
  then have "\<exists>r. optimum_rebelay polynomial_interp 100 (PInt 4) 7 2 100 = Inr r
           \<and> 1 \<le> r \<and> r \<le> 100"
    unfolding r1 r100 by blast
  with h1 h2 h3 h4 show ?thesis by blast
qed

text \<open>
  The claim as the spec states it fails. For a rope of 0.04 m every grid point rounds
  to 0.0, so whatever the interpolation returns the result is not above zero; with the
  polynomial routine the call returns 0.0. For a rope of 0.06 m a grid point rounds to
  0.0 or to 0.1, and neither lies strictly between 0 and 0.06.
\<close>

theorem optimum_rebelay_range_counterexample:
  "optimum_rebelay polynomial_interp (1 / 25) (PInt 4) 7 2 100 = Inr 0
   \<and> (\<forall>interp. optimum_rebelay interp (1 / 25) (PInt 4) 7 2 100
                 \<in> insert (Inr 0) (range Inl))
   \<and> (\<forall>interp. optimum_rebelay interp (3 / 50) (PInt 4) 7 2 100
                 \<in> insert (Inr 0) (insert (Inr (1 / 10)) (range Inl)))"
proof (intro conjI allI)
  have h: "(0::real) < 1 / 25" "(1::int) \<le> 100" "isinstance_int (PInt 4)"
    "1 \<le> int_value (PInt 4)" "(7::real) \<noteq> 0"
    by simp_all
  have acc: "\<And>xs ys. length xs = nat 100 \<Longrightarrow> length ys = nat 100 \<Longrightarrow> distinct xs
               \<Longrightarrow> \<exists>f. polynomial_interp xs ys = Inr f"
    by (simp add: polynomial_interp_accepts)
  obtain x where opt: "optimum_rebelay polynomial_interp (1 / 25) (PInt 4) 7 2 100
                         = Inr (round1 x)"
    and lo: "1 / 25 / of_int 100 \<le> x" and hi: "x \<le> 1 / 25"
    using optimum_rebelay_returns [where interp = polynomial_interp and t = 2, OF h acc]
    by blast
  have "0 \<le> x" using lo by simp
  moreover have "x < 1 / 20" using hi by simp
  ultimately have "round1 x = 0" by (rule round1_small)
  then show "optimum_rebelay polynomial_interp (1 / 25) (PInt 4) 7 2 100 = Inr 0"
    unfolding opt by simp
next
  fix interp :: interp1d
  have h: "(0::real) < 1 / 25" "(1::int) \<le> 100" "isinstance_int (PInt 4)"
    "1 \<le> int_value (PInt 4)" "(7::real) \<noteq> 0"
    by simp_all
  consider (err) e where "optimum_rebelay interp (1 / 25) (PInt 4) 7 2 100 = Inl e"
    | (val) x where "optimum_rebelay interp (1 / 25) (PInt 4) 7 2 100 = Inr (round1 x)"
        and "1 / 25 / of_int 100 \<le> x" and "x \<le> 1 / 25"
    using optimum_rebelay_outcomes [where interp = interp and t = 2, OF h] by blast
  then show "optimum_rebelay interp (1 / 25) (PInt 4) 7 2 100 \<in> insert (Inr 0) (range Inl)"
  proof cases
    case err
    then show ?thesis by simp
  next
    case val
    have "0 \<le> x" using val(2) by simp
    moreover have "x < 1 / 20" using val(3) by simp
    ultimately have "round1 x = 0" by (rule round1_small)
    then show ?thesis unfolding val(1) by simp
  qed
next
  fix interp :: interp1d
  have h: "(0::real) < 3 / 50" "(1::int) \<le> 100" "isinstance_int (PInt 4)"
    "1 \<le> int_value (PInt 4)" "(7::real) \<noteq> 0"
    by simp_all
  consider (err) e where "optimum_rebelay interp (3 / 50) (PInt 4) 7 2 100 = Inl e"
    | (val) x where "optimum_rebelay interp (3 / 50) (PInt 4) 7 2 100 = Inr (round1 x)"
        and "3 / 50 / of_int 100 \<le> x" and "x \<le> 3 / 50"
    using optimum_rebelay_outcomes [where interp = interp and t = 2, OF h] by blast
  then show "optimum_rebelay interp (3 / 50) (PInt 4) 7 2 100
               \<in> insert (Inr 0) (insert (Inr (1 / 10)) (range Inl))"
  proof cases
    case err
    then show ?thesis by simp
  next
    case val
    have "0 \<le> x" using val(2) by simp
    moreover have "x \<le> 1 / 10" using val(3) by simp
    ultimately have "round1 x = 0 \<or> round1 x = 1 / 10" by (rule round1_upto_tenth)
    then show ?thesis unfolding val(1) by auto
  qed
qed

text \<open>
  Claim C6. With the same speed up and down, every sample of the combined sweep is
  twice the sample of the single sweep, over the same section lengths. For an
  interpolation routine that is homogeneous under doubling of the ordinates (an
  interpolating spline is linear in them), the doubled curve has its first minimum at
  the same grid index, so \<open>optimum_rebelay_both_ways\<close> gives exactly the outcome of
  \<open>optimum_rebelay\<close>. Where \<open>optimum_rebelay\<close> returns a value, both return that value;
  it does so for a rope length and a speed above zero, an integer \<open>n_cavers \<ge> 1\<close>,
  \<open>max_number_rebelays \<ge> 1\<close> and a routine that accepts the samples.
\<close>

theorem both_ways_same_speed:
  assumes "\<And>xs ys. interp xs (map (\<lambda>y. y + y) ys)
                      = map_sum id (\<lambda>f x. f x + f x) (interp xs ys)"
  shows "rebelay_sweep_both_ways L n s s t m =
           (case rebelay_sweep L n s t m of
              Inl e \<Rightarrow> Inl e
            | Inr (ts, xs) \<Rightarrow> Inr (map (\<lambda>y. y + y) ts, xs))
         \<and> optimum_rebelay_both_ways interp L n s s t m = optimum_rebelay interp L n s t m
         \<and> (0 < L \<and> isinstance_int n \<and> 1 \<le> int_value n \<and> 0 < s \<and> 1 \<le> m
              \<and> (\<forall>xs ys. length xs = nat m \<and> length ys = nat m \<and> distinct xs
                    \<longrightarrow> (\<exists>f. interp xs ys = Inr f))
             \<longrightarrow> (\<exists>r. optimum_rebelay_both_ways interp L n s s t m = Inr r
                       \<and> optimum_rebelay interp L n s t m = Inr r))"
proof (intro conjI impI)
  show sw: "rebelay_sweep_both_ways L n s s t m =
           (case rebelay_sweep L n s t m of
              Inl e \<Rightarrow> Inl e
            | Inr (ts, xs) \<Rightarrow> Inr (map (\<lambda>y. y + y) ts, xs))"
    by (rule rebelay_sweep_both_ways_same_speed)
  show eq: "optimum_rebelay_both_ways interp L n s s t m = optimum_rebelay interp L n s t m"
  proof (cases "rebelay_sweep L n s t m")
    case (Inl e)
    then show ?thesis
      unfolding optimum_rebelay_both_ways_def optimum_rebelay_def sw by simp
  next
    case (Inr p)
    obtain ts xs where p: "p = (ts, xs)" by (cases p)
    have "find_minimum interp xs (map (\<lambda>y. y + y) ts) = find_minimum interp xs ts"
      using assms by (rule find_minimum_double)
    then show ?thesis
      unfolding optimum_rebelay_both_ways_def optimum_rebelay_def sw Inr p by simp
  qed
  assume h: "0 < L \<and> isinstance_int n \<and> 1 \<le> int_value n \<and> 0 < s \<and> 1 \<le> m
              \<and> (\<forall>xs ys. length xs = nat m \<and> length ys = nat m \<and> distinct xs
                    \<longrightarrow> (\<exists>f. interp xs ys = Inr f))"
  then have acc: "\<And>xs ys. length xs = nat m \<Longrightarrow> length ys = nat m \<Longrightarrow> distinct xs
               \<Longrightarrow> \<exists>f. interp xs ys = Inr f"
    by blast
  have h1: "0 < L" and h2: "1 \<le> m" and h3: "isinstance_int n" and h4: "1 \<le> int_value n"
    and h5: "s \<noteq> 0"
    using h by auto
  obtain x where "optimum_rebelay interp L n s t m = Inr (round1 x)"
    using optimum_rebelay_returns [where interp = interp and t = t, OF h1 h2 h3 h4 h5 acc]
    by blast
  then show "\<exists>r. optimum_rebelay_both_ways interp L n s s t m = Inr r
                \<and> optimum_rebelay interp L n s t m = Inr r"
    unfolding eq by simp
qed

theorem both_ways_same_speed_witness:
  "polynomial_interp [100, 50, 100 / 3, 25] (map (\<lambda>y. y + y) [1, 2, 3, 4])
     = map_sum id (\<lambda>f x. f x + f x) (polynomial_interp [100, 50, 100 / 3, 25] [1, 2, 3, 4])
   \<and> rebelay_sweep_both_ways 100 (PInt 4) 7 7 2 4
        = Inr ([912 / 7, 640 / 7, 568 / 7, 78], [100, 50, 100 / 3, 25])
   \<and> optimum_rebelay_both_ways polynomial_interp 100 (PInt 4) 7 7 2 4
        = optimum_rebelay polynomial_interp 100 (PInt 4) 7 2 4
   \<and> (0::real) < 100 \<and> isinstance_int (PInt 4) \<and> 1 \<le> int_value (PInt 4) \<and> (0::real) < 7
   \<and> (1::int) \<le> 4
   \<and> (\<exists>r. optimum_rebelay_both_ways polynomial_interp 100 (PInt 4) 7 7 2 4 = Inr r
           \<and> optimum_rebelay polynomial_interp 100 (PInt 4) 7 2 4 = Inr r)"
proof -
  have acc: "\<forall>xs ys. length xs = nat 4 \<and> length ys = nat 4 \<and> distinct xs
               \<longrightarrow> (\<exists>f. polynomial_interp xs ys = Inr f)"
    by (simp add: polynomial_interp_accepts)
  have sw: "rebelay_sweep 100 (PInt 4) 7 2 4
              = Inr ([456 / 7, 320 / 7, 284 / 7, 39], [100, 50, 100 / 3, 25])"
    unfolding rebelay_sweep_char py_range_def
    by (simp add: ascent_time_def section_length_def section_time_def leader_time_def
          py_div_def upto_rec1)
  note th = both_ways_same_speed [where interp = polynomial_interp and L = 100
      and n = "PInt 4" and s = 7 and t = 2 and m = 4, OF polynomial_interp_double]
  have "rebelay_sweep_both_ways 100 (PInt 4) 7 7 2 4
          = Inr ([912 / 7, 640 / 7, 568 / 7, 78], [100, 50, 100 / 3, 25])"
    using th unfolding sw by simp
  moreover have "optimum_rebelay_both_ways polynomial_interp 100 (PInt 4) 7 7 2 4
        = optimum_rebelay polynomial_interp 100 (PInt 4) 7 2 4"
    using th by blast
  moreover have "\<exists>r. optimum_rebelay_both_ways polynomial_interp 100 (PInt 4) 7 7 2 4 = Inr r
           \<and> optimum_rebelay polynomial_interp 100 (PInt 4) 7 2 4 = Inr r"
    using th acc by auto
  moreover have "polynomial_interp [100, 50, 100 / 3, 25] (map (\<lambda>y. y + y) [1, 2, 3, 4])
     = map_sum id (\<lambda>f x. f x + f x) (polynomial_interp [100, 50, 100 / 3, 25] [1, 2, 3, 4])"
    by (rule polynomial_interp_double)
  moreover have "(0::real) < 100 \<and> isinstance_int (PInt 4) \<and> 1 \<le> int_value (PInt 4)
      \<and> (0::real) < 7 \<and> (1::int) \<le> 4"
    by simp
  ultimately show ?thesis by blast
qed



end
